theory Spec2Isabelle
  imports Main
begin

section \<open>The store read and written by the repair script\<close>

text \<open>
  The script \<^verbatim>\<open>checkMikesAuctions\<close> works on \<^verbatim>\<open>storage\<close>, whose maps
  \<^verbatim>\<open>storage.auctions\<close> and \<^verbatim>\<open>storage.motorcycles\<close> it reads directly
  (\<^verbatim>\<open>storage.motorcycles.get(auction.motorcycleId)\<close>). Records carry the fields the
  script reads or writes. Statuses are the strings the script compares; \<^verbatim>\<open>soldDate\<close>
  is \<open>None\<close> for null or undefined. The field \<^verbatim>\<open>make\<close> is written \<open>make_m\<close>.
\<close>

record user =
  id :: nat
  username :: string
  role :: string

record motorcycle =
  id :: nat
  make_m :: string
  model :: string
  status :: string
  soldDate :: "string option"

record auction =
  id :: nat
  motorcycleId :: nat
  dealerId :: nat
  status :: string
  winningBidderId :: "nat option"
  bidAccepted :: bool
  dealConfirmed :: bool
  collectionConfirmed :: bool

text \<open>
  An element of \<^verbatim>\<open>mikesAuctions\<close>: the auction's own fields and the joined
  \<^verbatim>\<open>auction.motorcycle\<close> (its bids are never read by the script).
\<close>

record auctionWithDetails = auction +
  motorcycle :: motorcycle

record storage =
  users :: "user list"
  auctions :: "nat \<rightharpoonup> auction"
  motorcycles :: "nat \<rightharpoonup> motorcycle"

text \<open>
  Modelled from the spec: \<^verbatim>\<open>storage.getUserByUsername\<close> lives in server/storage,
  which is not among the sources; it is taken as the lookup of the user record with the
  given name.
\<close>

definition getUserByUsername :: "storage \<Rightarrow> string \<Rightarrow> user option" where
  "getUserByUsername s name = find (\<lambda>u. username u = name) (users s)"

text \<open>
  Modelled from the spec: \<^verbatim>\<open>storage.updateAuction(id, {status})\<close> lives in
  server/storage, which is not among the sources. It is taken as the store's per-record
  replace (section 6 of the specification, \<^verbatim>\<open>put(record)\<close>) of the stored auction
  with the given field overwritten; an id without a record changes nothing. The script
  does not await the call: the write is taken to reach the store when it is issued.
\<close>

definition updateAuction :: "nat \<Rightarrow> string \<Rightarrow> storage \<Rightarrow> storage" where
  "updateAuction k st s =
     (case auctions s k of
        None \<Rightarrow> s
      | Some a \<Rightarrow> s\<lparr>auctions := (auctions s)(k \<mapsto> a\<lparr>auction.status := st\<rparr>)\<rparr>)"

text \<open>
  Modelled from the spec: \<^verbatim>\<open>storage.updateMotorcycle(id, {status, soldDate})\<close>, in
  the same way.
\<close>

definition updateMotorcycle :: "nat \<Rightarrow> string \<Rightarrow> string \<Rightarrow> storage \<Rightarrow> storage" where
  "updateMotorcycle k st d s =
     (case motorcycles s k of
        None \<Rightarrow> s
      | Some m \<Rightarrow>
          s\<lparr>motorcycles := (motorcycles s)(k \<mapsto> m\<lparr>motorcycle.status := st, soldDate := Some d\<rparr>)\<rparr>)"

text \<open>
  Modelled from the spec: \<^verbatim>\<open>storage.getAuctionsWithBidsByDealer(mikeId)\<close> lives in
  server/storage, which is not among the sources. Which auctions it selects for a user is
  the parameter \<open>sel\<close> (a list of auction ids per user id). Each selected auction is
  returned as a copy of the stored record joined with the motorcycle that
  \<^verbatim>\<open>auction.motorcycleId\<close> resolves to (invariant I1 of the specification); an id
  that resolves to no record yields no element.
\<close>

definition withDetails :: "storage \<Rightarrow> nat \<Rightarrow> auctionWithDetails option" where
  "withDetails s k =
     (case auctions s k of
        None \<Rightarrow> None
      | Some a \<Rightarrow>
          (case motorcycles s (motorcycleId a) of
             None \<Rightarrow> None
           | Some m \<Rightarrow> Some (auction.extend a \<lparr>motorcycle = m\<rparr>)))"

text \<open>
  Modelled from the spec: the query over the ids it selects for the user, in their order.
\<close>

definition getAuctionsWithBidsByDealer ::
    "(nat \<Rightarrow> nat list) \<Rightarrow> storage \<Rightarrow> nat \<Rightarrow> auctionWithDetails list" where
  "getAuctionsWithBidsByDealer sel s dealer = List.map_filter (withDetails s) (sel dealer)"

section \<open>The repair pass of checkMikesAuctions\<close>

text \<open>
  The two calls the pass can issue:
  \<^verbatim>\<open>storage.updateAuction(id, { status })\<close> and
  \<^verbatim>\<open>storage.updateMotorcycle(id, { status, soldDate })\<close>.
\<close>

datatype storeWrite =
  UpdateAuction nat string
| UpdateMotorcycle nat string string

fun perform :: "storeWrite \<Rightarrow> storage \<Rightarrow> storage" where
  "perform (UpdateAuction k st) s = updateAuction k st s"
| "perform (UpdateMotorcycle k st d) s = updateMotorcycle k st d s"


definition jsOr :: "string option \<Rightarrow> string \<Rightarrow> string" where
  "jsOr d now = (case d of None \<Rightarrow> now | Some x \<Rightarrow> if x = [] then now else x)"

text \<open>
  The body of \<^verbatim>\<open>mikesAuctions.forEach\<close> for one element (lines 184 to 209 of the
  script). \<open>now\<close> is what \<^verbatim>\<open>new Date().toISOString()\<close> returns in this
  iteration. Logging is left out.
\<close>

definition forEachBody :: "nat \<Rightarrow> string \<Rightarrow> auctionWithDetails \<Rightarrow> storage \<Rightarrow> storage" where
  "forEachBody mikeId now a s =
     (if winningBidderId a = Some mikeId \<and> bidAccepted a then
        (if auction.status a \<noteq> ''pending_collection''
            \<or> motorcycle.status (motorcycle a) \<noteq> ''pending_collection'' then
           (let s1 = (if auction.status a \<noteq> ''pending_collection''
                      then updateAuction (auction.id a) ''pending_collection'' s
                      else s)
            in if motorcycle.status (motorcycle a) \<noteq> ''pending_collection''
               then updateMotorcycle (motorcycle.id (motorcycle a)) ''pending_collection''
                      (jsOr (soldDate (motorcycle a)) now) s1
               else s1)
         else s)
      else s)"

text \<open>
  The loop over \<^verbatim>\<open>mikesAuctions\<close>. The elements are the query's copies, so every
  decision reads the copy; \<open>clock i\<close> is the time string read in iteration \<open>i\<close>.
\<close>

fun forEach :: "nat \<Rightarrow> (nat \<Rightarrow> string) \<Rightarrow> nat \<Rightarrow> auctionWithDetails list \<Rightarrow> storage \<Rightarrow> storage" where
  "forEach mikeId clock i [] s = s"
| "forEach mikeId clock i (a # as) s =
     forEach mikeId clock (Suc i) as (forEachBody mikeId (clock i) a s)"

text \<open>
  One run of the script, as the store it leaves. When \<^verbatim>\<open>miketrader\<close> is not found
  the script returns before it reads any auction.
\<close>

definition checkMikesAuctions :: "(nat \<Rightarrow> nat list) \<Rightarrow> (nat \<Rightarrow> string) \<Rightarrow> storage \<Rightarrow> storage" where
  "checkMikesAuctions sel clock s =
     (case getUserByUsername s ''miketrader'' of
        None \<Rightarrow> s
      | Some mike \<Rightarrow>
          forEach (user.id mike) clock 0 (getAuctionsWithBidsByDealer sel s (user.id mike)) s)"

subsection \<open>The writes of a run\<close>

text \<open>
  The same code read as the list of storage calls it issues, in order: by the loop body
  for one element, by the loop, and by a run of the script.
\<close>

definition fixWrites :: "nat \<Rightarrow> string \<Rightarrow> auctionWithDetails \<Rightarrow> storeWrite list" where
  "fixWrites mikeId now a =
     (if winningBidderId a = Some mikeId \<and> bidAccepted a then
        (if auction.status a \<noteq> ''pending_collection''
            \<or> motorcycle.status (motorcycle a) \<noteq> ''pending_collection'' then
           (if auction.status a \<noteq> ''pending_collection''
            then [UpdateAuction (auction.id a) ''pending_collection'']
            else [])
           @
           (if motorcycle.status (motorcycle a) \<noteq> ''pending_collection''
            then [UpdateMotorcycle (motorcycle.id (motorcycle a)) ''pending_collection''
                    (jsOr (soldDate (motorcycle a)) now)]
            else [])
         else [])
      else [])"

fun allWrites :: "nat \<Rightarrow> (nat \<Rightarrow> string) \<Rightarrow> nat \<Rightarrow> auctionWithDetails list \<Rightarrow> storeWrite list" where
  "allWrites mikeId clock i [] = []"
| "allWrites mikeId clock i (a # as) =
     fixWrites mikeId (clock i) a @ allWrites mikeId clock (Suc i) as"

definition issuedWrites :: "(nat \<Rightarrow> nat list) \<Rightarrow> (nat \<Rightarrow> string) \<Rightarrow> storage \<Rightarrow> storeWrite list" where
  "issuedWrites sel clock s =
     (case getUserByUsername s ''miketrader'' of
        None \<Rightarrow> []
      | Some mike \<Rightarrow>
          allWrites (user.id mike) clock 0 (getAuctionsWithBidsByDealer sel s (user.id mike)))"

definition performAll :: "storeWrite list \<Rightarrow> storage \<Rightarrow> storage" where
  "performAll ws s = foldl (\<lambda>t w. perform w t) s ws"

subsection \<open>Properties of a store\<close>

text \<open>Every record is stored under its own id, as a map keyed by id holds it.\<close>

definition wf_storage :: "storage \<Rightarrow> bool" where
  "wf_storage s =
     ((\<forall>k a. auctions s k = Some a \<longrightarrow> auction.id a = k)
      \<and> (\<forall>k m. motorcycles s k = Some m \<longrightarrow> motorcycle.id m = k))"

text \<open>
  Invariant I4 of the specification for the auction stored under \<open>k\<close> and the motorcycle
  it references (nothing is required where either record is missing).
\<close>

definition I4_at :: "storage \<Rightarrow> nat \<Rightarrow> bool" where
  "I4_at s k =
     (case auctions s k of
        None \<Rightarrow> True
      | Some a \<Rightarrow>
          (case motorcycles s (motorcycleId a) of
             None \<Rightarrow> True
           | Some m \<Rightarrow>
               (auction.status a = ''pending_collection''
                  \<longleftrightarrow> motorcycle.status m = ''pending_collection'')
               \<and> (auction.status a = ''completed'' \<longleftrightarrow> motorcycle.status m = ''sold'')))"

text \<open>Every write sets the status \<^verbatim>\<open>'pending_collection'\<close>.\<close>

definition pcWrite :: "storeWrite \<Rightarrow> bool" where
  "pcWrite w =
     (case w of
        UpdateAuction k st \<Rightarrow> st = ''pending_collection''
      | UpdateMotorcycle k st d \<Rightarrow> st = ''pending_collection'')"

text \<open>
  The lifecycle graph of section 4.2 of the specification, as its edges:
  active to closed_no_bids or pending_acceptance, pending_acceptance to
  pending_collection, pending_collection to completed, and the two cancellations.
\<close>

definition lifecycleEdges :: "(string \<times> string) list" where
  "lifecycleEdges =
     [(''active'', ''closed_no_bids''), (''active'', ''pending_acceptance''),
      (''pending_acceptance'', ''pending_collection''),
      (''pending_collection'', ''completed''),
      (''active'', ''cancelled''), (''pending_acceptance'', ''cancelled'')]"

text \<open>
  A store with the user \<^verbatim>\<open>miketrader\<close> (id 7), one auction (id 21, bid accepted) of
  the given status and winner, confirmed or not, and its motorcycle (id 10) of the given
  status and sold date.
\<close>

definition exampleStore ::
    "string \<Rightarrow> nat option \<Rightarrow> bool \<Rightarrow> string \<Rightarrow> string option \<Rightarrow> storage" where
  "exampleStore auctionStatus winner confirmed itemStatus sold =
     \<lparr>users = [\<lparr>user.id = 7, username = ''miketrader'', role = ''trader''\<rparr>],
      auctions = Map.empty(21 \<mapsto>
        \<lparr>auction.id = 21, motorcycleId = 10, dealerId = 3, status = auctionStatus,
         winningBidderId = winner, bidAccepted = True, dealConfirmed = confirmed,
         collectionConfirmed = confirmed\<rparr>),
      motorcycles = Map.empty(10 \<mapsto>
        \<lparr>motorcycle.id = 10, make_m = ''Honda'', model = ''CB500'', status = itemStatus,
         soldDate = sold\<rparr>)\<rparr>"

text \<open>The query selects the one auction; every read of the clock gives the same instant.\<close>

abbreviation exampleSel :: "nat \<Rightarrow> nat list" where
  "exampleSel \<equiv> (\<lambda>_. [21])"

abbreviation exampleClock :: "nat \<Rightarrow> string" where
  "exampleClock \<equiv> (\<lambda>_. ''2024-06-01T00:00:00.000Z'')"


text \<open>
  Whether pending_collection is the given status or lies ahead of it on the lifecycle
  graph.
\<close>

definition leadsToPendingCollection :: "string \<Rightarrow> bool" where
  "leadsToPendingCollection st = ((st, ''pending_collection'') \<in> (set lifecycleEdges)\<^sup>*)"




section \<open>BikeUploadForm\<close>

subsection \<open>Listing duration\<close>

definition getDurationMs :: "string \<Rightarrow> int" where
  "getDurationMs duration =
     (let DAY_IN_MS = 24 * 60 * 60 * 1000;
          WEEK_IN_MS = 7 * DAY_IN_MS;
          MONTH_IN_MS = 30 * DAY_IN_MS
      in if duration = ''1day'' then DAY_IN_MS
         else if duration = ''1week'' then WEEK_IN_MS
         else if duration = ''2weeks'' then 2 * WEEK_IN_MS
         else if duration = ''1month'' then MONTH_IN_MS
         else DAY_IN_MS)"

subsection \<open>The auction-creation request\<close>

text \<open>
  The form's values, as far as the auction request reads them: the field state before
  validation, and the schema's output that \<^verbatim>\<open>onSubmit\<close> receives. A value of
  \<^verbatim>\<open>visibilityRadius\<close> is undefined, null, the empty string, NaN or a number. The
  input's change handler (lines 802 to 805) stores null for an empty input and the
  result of \<^verbatim>\<open>parseInt\<close> otherwise; the default is null.
\<close>

datatype radius = Undefined | Null | EmptyString | NaN | Radius int

record uploadFormValues =
  dealerId :: "nat option"
  auctionDuration :: string
  visibilityType :: string
  visibilityRadius :: radius

text \<open>
  The body of the POST to \<^verbatim>\<open>/api/auctions\<close>. \<open>startTime\<close> and \<open>endTime\<close> hold
  the time value (milliseconds since the epoch) that the ISO string sent denotes.
\<close>

record auctionRequest =
  motorcycleId :: nat
  dealerId :: "nat option"
  startTime :: int
  endTime :: int
  visibilityType :: string
  visibilityRadius :: radius

datatype submitError = InvalidForm | AuthenticationRequired | RangeError

text \<open>
  A JavaScript \<^verbatim>\<open>Date\<close> made from a time value: beyond 8.64e15 milliseconds either
  side of the epoch it is an invalid date (\<open>None\<close>), on which \<^verbatim>\<open>toISOString\<close>
  throws a RangeError.
\<close>

definition newDate :: "int \<Rightarrow> int option" where
  "newDate t = (if \<bar>t\<bar> \<le> 8640000000000000 then Some t else None)"

text \<open>
  \<^verbatim>\<open>data.dealerId || user?.id\<close>: the left operand unless it is undefined or 0.
\<close>

definition dealerIdOr :: "nat option \<Rightarrow> user option \<Rightarrow> nat option" where
  "dealerIdOr d usr =
     (case d of
        None \<Rightarrow> map_option user.id usr
      | Some n \<Rightarrow> if n = 0 then map_option user.id usr else Some n)"

text \<open>
  The part of \<^verbatim>\<open>createAuctionMutation.mutationFn\<close> that builds the auction request
  (lines 248 to 260). \<open>motorcycle_id\<close> is the id in the server's answer to the
  motorcycle POST; \<open>now\<close> is the time value of \<^verbatim>\<open>new Date()\<close>.
\<close>

definition mutationFn ::
    "uploadFormValues \<Rightarrow> user option \<Rightarrow> nat \<Rightarrow> int \<Rightarrow> submitError + auctionRequest" where
  "mutationFn data usr motorcycle_id now =
     (case newDate now of
        None \<Rightarrow> Inl RangeError
      | Some start \<Rightarrow>
          (case newDate (start + getDurationMs (auctionDuration data)) of
             None \<Rightarrow> Inl RangeError
           | Some end_time \<Rightarrow>
               Inr \<lparr>auctionRequest.motorcycleId = motorcycle_id,
                    dealerId = dealerIdOr (uploadFormValues.dealerId data) usr,
                    startTime = start,
                    endTime = end_time,
                    visibilityType = uploadFormValues.visibilityType data,
                    visibilityRadius =
                      (if uploadFormValues.visibilityType data = ''radius''
                       then uploadFormValues.visibilityRadius data else Null)\<rparr>))"

text \<open>\<^verbatim>\<open>z.enum\<close> accepts exactly the listed strings.\<close>

definition z_enum :: "string list \<Rightarrow> string \<Rightarrow> bool" where
  "z_enum allowed x = (x \<in> set allowed)"

text \<open>
  The preprocessing of \<^verbatim>\<open>visibilityRadius\<close> (line 94),
  \<^verbatim>\<open>(val) => (val === '' ? null : Number(val))\<close>: \<^verbatim>\<open>Number(null)\<close> is 0 and
  \<^verbatim>\<open>Number(undefined)\<close> is NaN.
\<close>

definition preprocessRadius :: "radius \<Rightarrow> radius" where
  "preprocessRadius val =
     (case val of
        EmptyString \<Rightarrow> Null
      | Undefined \<Rightarrow> NaN
      | Null \<Rightarrow> Radius 0
      | NaN \<Rightarrow> NaN
      | Radius n \<Rightarrow> Radius n)"

text \<open>
  \<^verbatim>\<open>z.number().nullable().optional()\<close> (line 95): a number other than NaN, null or
  undefined passes unchanged; anything else is an error (\<open>None\<close>).
\<close>

definition z_number_nullable_optional :: "radius \<Rightarrow> radius option" where
  "z_number_nullable_optional v =
     (case v of
        Undefined \<Rightarrow> Some Undefined
      | Null \<Rightarrow> Some Null
      | Radius n \<Rightarrow> Some (Radius n)
      | EmptyString \<Rightarrow> None
      | NaN \<Rightarrow> None)"

text \<open>
  \<^verbatim>\<open>uploadSchema\<close> on the fields of these records: the two enums (lines 77 and 90)
  and the preprocessed \<^verbatim>\<open>visibilityRadius\<close> (lines 93 to 96). The result is the
  parsed output, or \<open>None\<close> when a field is refused. The schema's other fields (make,
  year, mileage and the optional texts) are not part of these records; a form refused
  for one of them sends nothing.
\<close>

definition uploadSchema :: "uploadFormValues \<Rightarrow> uploadFormValues option" where
  "uploadSchema values =
     (if z_enum [''1day'', ''1week'', ''2weeks'', ''1month''] (auctionDuration values)
         \<and> z_enum [''all'', ''favorites'', ''radius''] (uploadFormValues.visibilityType values)
      then
        (case z_number_nullable_optional
                (preprocessRadius (uploadFormValues.visibilityRadius values)) of
           None \<Rightarrow> None
         | Some r \<Rightarrow> Some (values\<lparr>uploadFormValues.visibilityRadius := r\<rparr>))
      else None)"

text \<open>
  \<^verbatim>\<open>onSubmit\<close> (lines 297 to 320) sends nothing without a user and otherwise
  mutates with \<^verbatim>\<open>dealerId\<close> set to the user's id.
\<close>

definition onSubmit ::
    "uploadFormValues \<Rightarrow> user option \<Rightarrow> nat \<Rightarrow> int \<Rightarrow> submitError + auctionRequest" where
  "onSubmit data usr motorcycle_id now =
     (case usr of
        None \<Rightarrow> Inl AuthenticationRequired
      | Some u \<Rightarrow>
          mutationFn (data\<lparr>uploadFormValues.dealerId := Some (user.id u)\<rparr>) usr motorcycle_id now)"

text \<open>
  \<^verbatim>\<open>form.handleSubmit(onSubmit)\<close> with the zod resolver: the form's values are
  parsed by the schema, and \<^verbatim>\<open>onSubmit\<close> is called with the parsed output; values
  the schema refuses send nothing.
\<close>

definition handleSubmit ::
    "uploadFormValues \<Rightarrow> user option \<Rightarrow> nat \<Rightarrow> int \<Rightarrow> submitError + auctionRequest" where
  "handleSubmit values usr motorcycle_id now =
     (case uploadSchema values of
        None \<Rightarrow> Inl InvalidForm
      | Some data \<Rightarrow> onSubmit data usr motorcycle_id now)"

subsection \<open>The image selection\<close>

text \<open>
  The component state \<^verbatim>\<open>imageFiles\<close>, \<^verbatim>\<open>imageUrls\<close>, together with the
  browser's store of object URLs. An object URL is identified by the number of the
  \<^verbatim>\<open>URL.createObjectURL\<close> call that made it (the browser makes each one anew);
  \<open>objectURLs\<close> maps a live URL to the file it previews.
\<close>

record 'f uploadState =
  imageFiles :: "'f list"
  imageUrls :: "nat list"
  objectURLs :: "nat \<rightharpoonup> 'f"
  nextURL :: nat

definition initialState :: "'f uploadState" where
  "initialState = \<lparr>imageFiles = [], imageUrls = [], objectURLs = Map.empty, nextURL = 0\<rparr>"

text \<open>
  \<^verbatim>\<open>newFiles.map(file => URL.createObjectURL(file))\<close>: the URLs made, the URL store
  and the next URL afterwards.
\<close>

fun createObjectURLs ::
    "'f list \<Rightarrow> (nat \<rightharpoonup> 'f) \<Rightarrow> nat \<Rightarrow> nat list \<times> (nat \<rightharpoonup> 'f) \<times> nat" where
  "createObjectURLs [] store n = ([], store, n)"
| "createObjectURLs (f # fs) store n =
     (case createObjectURLs fs (store(n \<mapsto> f)) (Suc n) of
        (us, store', n') \<Rightarrow> (n # us, store', n'))"

text \<open>
  \<^verbatim>\<open>Array.prototype.slice(0, end)\<close>: a negative \<open>end\<close> counts from the end of the
  array.
\<close>

definition slice0 :: "'a list \<Rightarrow> int \<Rightarrow> 'a list" where
  "slice0 xs e = (if e < 0 then take (nat (int (length xs) + e)) xs else take (nat e) xs)"

text \<open>
  \<^verbatim>\<open>handleImageChange\<close> (lines 167 to 189); \<open>None\<close> is an event whose
  \<^verbatim>\<open>e.target.files\<close> is null. The toast changes no state.
\<close>

definition handleImageChange :: "'f list option \<Rightarrow> 'f uploadState \<Rightarrow> 'f uploadState" where
  "handleImageChange files st =
     (case files of
        None \<Rightarrow> st
      | Some filesArray \<Rightarrow>
          (let maxImages = 20;
               newFiles = slice0 filesArray (maxImages - int (length (imageFiles st)))
           in case createObjectURLs newFiles (objectURLs st) (nextURL st) of
                (newUrls, store, n) \<Rightarrow>
                  st\<lparr>imageFiles := imageFiles st @ newFiles,
                     imageUrls := imageUrls st @ newUrls,
                     objectURLs := store,
                     nextURL := n\<rparr>))"

text \<open>\<^verbatim>\<open>prev.filter((_, i) => i !== index)\<close>\<close>

definition filterIndex :: "nat \<Rightarrow> 'a list \<Rightarrow> 'a list" where
  "filterIndex index xs = map fst (filter (\<lambda>(x, i). i \<noteq> index) (zip xs [0..<length xs]))"

text \<open>
  \<^verbatim>\<open>removeImage\<close> (lines 192 to 198). \<^verbatim>\<open>imageUrls[index]\<close> out of range is
  undefined, and revoking it revokes nothing.
\<close>

definition removeImage :: "nat \<Rightarrow> 'f uploadState \<Rightarrow> 'f uploadState" where
  "removeImage index st =
     st\<lparr>imageFiles := filterIndex index (imageFiles st),
        objectURLs :=
          (if index < length (imageUrls st)
           then (objectURLs st)(imageUrls st ! index := None)
           else objectURLs st),
        imageUrls := filterIndex index (imageUrls st)\<rparr>"

datatype 'f imageEvent = HandleImageChange "'f list option" | RemoveImage nat

fun imageStep :: "'f imageEvent \<Rightarrow> 'f uploadState \<Rightarrow> 'f uploadState" where
  "imageStep (HandleImageChange files) st = handleImageChange files st"
| "imageStep (RemoveImage index) st = removeImage index st"

text \<open>
  The selection after a sequence of calls from the empty one; each call runs on the
  state the call before it left (the component renders between two events).
\<close>

definition runImages :: "'f imageEvent list \<Rightarrow> 'f uploadState" where
  "runImages evs = foldl (\<lambda>st e. imageStep e st) initialState evs"

text \<open>
  What every reachable image selection satisfies: at most 20 files, each URL live in the
  browser's store for the file at its index, no URL twice, none yet to be made.
\<close>

definition imagesInv :: "'f uploadState \<Rightarrow> bool" where
  "imagesInv st =
     (length (imageFiles st) \<le> 20
      \<and> map (objectURLs st) (imageUrls st) = map Some (imageFiles st)
      \<and> distinct (imageUrls st)
      \<and> list_all (\<lambda>u. u < nextURL st) (imageUrls st))"

section \<open>Facts about the store operations\<close>

lemma auctions_updateAuction:
  "auctions (updateAuction k' st s) k =
     (if k = k' then map_option (\<lambda>a. a\<lparr>auction.status := st\<rparr>) (auctions s k) else auctions s k)"
  by (simp add: updateAuction_def split: option.splits)

lemma motorcycles_updateAuction: "motorcycles (updateAuction k' st s) = motorcycles s"
  by (simp add: updateAuction_def split: option.splits)

lemma users_updateAuction: "users (updateAuction k' st s) = users s"
  by (simp add: updateAuction_def split: option.splits)

lemma motorcycles_updateMotorcycle:
  "motorcycles (updateMotorcycle k' st d s) k =
     (if k = k' then map_option (\<lambda>m. m\<lparr>motorcycle.status := st, soldDate := Some d\<rparr>) (motorcycles s k)
      else motorcycles s k)"
  by (simp add: updateMotorcycle_def split: option.splits)

lemma auctions_updateMotorcycle: "auctions (updateMotorcycle k' st d s) = auctions s"
  by (simp add: updateMotorcycle_def split: option.splits)

lemma users_updateMotorcycle: "users (updateMotorcycle k' st d s) = users s"
  by (simp add: updateMotorcycle_def split: option.splits)

lemma performAll_Nil: "performAll [] s = s"
  by (simp add: performAll_def)

lemma performAll_Cons: "performAll (w # ws) s = performAll ws (perform w s)"
  by (simp add: performAll_def)

lemma performAll_append: "performAll (ws @ vs) s = performAll vs (performAll ws s)"
  by (simp add: performAll_def)

text \<open>The script performs exactly the writes listed for it, in their order.\<close>

lemma forEachBody_writes: "forEachBody mikeId now a s = performAll (fixWrites mikeId now a) s"
  by (simp add: forEachBody_def fixWrites_def performAll_def Let_def)

lemma forEach_writes: "forEach mikeId clock i as s = performAll (allWrites mikeId clock i as) s"
  by (induction as arbitrary: i s) (simp_all add: performAll_Nil performAll_append forEachBody_writes)

lemma checkMikesAuctions_writes:
  "checkMikesAuctions sel clock s = performAll (issuedWrites sel clock s) s"
  by (simp add: checkMikesAuctions_def issuedWrites_def forEach_writes performAll_Nil
        split: option.splits)

lemma users_performAll: "users (performAll ws s) = users s"
proof (induction ws arbitrary: s)
  case Nil
  show ?case by (simp add: performAll_Nil)
next
  case (Cons w ws)
  show ?case
    by (cases w) (simp_all add: performAll_Cons Cons.IH users_updateAuction users_updateMotorcycle)
qed

lemma auctions_performAll:
  "\<forall>w\<in>set ws. pcWrite w \<Longrightarrow>
   auctions (performAll ws s) k =
     (if UpdateAuction k ''pending_collection'' \<in> set ws
      then map_option (\<lambda>a. a\<lparr>auction.status := ''pending_collection''\<rparr>) (auctions s k)
      else auctions s k)"
proof (induction ws arbitrary: s)
  case Nil
  show ?case by (simp add: performAll_Nil)
next
  case (Cons w ws)
  then have IH: "\<And>t. auctions (performAll ws t) k =
     (if UpdateAuction k ''pending_collection'' \<in> set ws
      then map_option (\<lambda>a. a\<lparr>auction.status := ''pending_collection''\<rparr>) (auctions t k)
      else auctions t k)" and w: "pcWrite w"
    by simp_all
  show ?case
  proof (cases w)
    case (UpdateAuction k' st)
    with w have st: "st = ''pending_collection''" by (simp add: pcWrite_def)
    show ?thesis
      by (simp add: performAll_Cons IH UpdateAuction st auctions_updateAuction
            option.map_comp comp_def)
  next
    case (UpdateMotorcycle k' st d)
    show ?thesis
      by (simp add: performAll_Cons IH UpdateMotorcycle auctions_updateMotorcycle)
  qed
qed

lemma performAll_invariant:
  assumes "P s" and "\<And>t w. w \<in> set ws \<Longrightarrow> P t \<Longrightarrow> P (perform w t)"
  shows "P (performAll ws s)"
  using assms
proof (induction ws arbitrary: s)
  case Nil
  then show ?case by (simp add: performAll_Nil)
next
  case (Cons w ws)
  have "P (perform w s)" using Cons.prems by simp
  then show ?case
    using Cons.IH [of "perform w s"] Cons.prems(2) by (simp add: performAll_Cons)
qed

lemma motorcycles_perform_cases:
  "motorcycles (perform w t) k = motorcycles t k
   \<or> (\<exists>st d m. w = UpdateMotorcycle k st d \<and> motorcycles t k = Some m
        \<and> motorcycles (perform w t) k = Some (m\<lparr>motorcycle.status := st, soldDate := Some d\<rparr>))"
  by (cases w) (auto simp add: motorcycles_updateAuction motorcycles_updateMotorcycle)

lemma motorcycles_performAll_None:
  assumes "motorcycles s k = None"
  shows "motorcycles (performAll ws s) k = None"
proof (rule performAll_invariant [where P = "\<lambda>t::storage. motorcycles t k = None"])
  show "motorcycles s k = None" by (rule assms)
next
  fix t :: storage and w
  assume "motorcycles t k = None"
  then show "motorcycles (perform w t) k = None"
    using motorcycles_perform_cases [of w t k] by auto
qed

lemma motorcycles_performAll_frame:
  assumes "motorcycles s k = Some m"
  shows "\<exists>m'. motorcycles (performAll ws s) k = Some m'
           \<and> m'\<lparr>motorcycle.status := motorcycle.status m, soldDate := soldDate m\<rparr> = m"
proof (rule performAll_invariant
    [where P = "\<lambda>t::storage. \<exists>m'. motorcycles t k = Some m'
           \<and> m'\<lparr>motorcycle.status := motorcycle.status m, soldDate := soldDate m\<rparr> = m"])
  show "\<exists>m'. motorcycles s k = Some m'
           \<and> m'\<lparr>motorcycle.status := motorcycle.status m, soldDate := soldDate m\<rparr> = m"
    using assms by simp
next
  fix t :: storage and w
  assume "\<exists>m'. motorcycles t k = Some m'
           \<and> m'\<lparr>motorcycle.status := motorcycle.status m, soldDate := soldDate m\<rparr> = m"
  then show "\<exists>m'. motorcycles (perform w t) k = Some m'
           \<and> m'\<lparr>motorcycle.status := motorcycle.status m, soldDate := soldDate m\<rparr> = m"
    using motorcycles_perform_cases [of w t k] by auto
qed


lemma status_performAll_kept:
  assumes "\<forall>w\<in>set ws. pcWrite w"
    and "\<exists>m'. motorcycles s k = Some m' \<and> motorcycle.status m' = ''pending_collection''"
  shows "\<exists>m'. motorcycles (performAll ws s) k = Some m' \<and> motorcycle.status m' = ''pending_collection''"
proof (rule performAll_invariant
    [where P = "\<lambda>t::storage. \<exists>m'. motorcycles t k = Some m' \<and> motorcycle.status m' = ''pending_collection''"])
  show "\<exists>m'. motorcycles s k = Some m' \<and> motorcycle.status m' = ''pending_collection''"
    by (rule assms(2))
next
  fix t :: storage and w
  assume w: "w \<in> set ws"
    and inv: "\<exists>m'. motorcycles t k = Some m' \<and> motorcycle.status m' = ''pending_collection''"
  from w assms(1) have "pcWrite w" by simp
  then show "\<exists>m'. motorcycles (perform w t) k = Some m' \<and> motorcycle.status m' = ''pending_collection''"
    using motorcycles_perform_cases [of w t k] inv by (auto simp add: pcWrite_def)
qed

lemma motorcycles_performAll_status:
  assumes "\<forall>w\<in>set ws. pcWrite w" and "UpdateMotorcycle k ''pending_collection'' d \<in> set ws"
    and "motorcycles s k = Some m"
  shows "\<exists>m'. motorcycles (performAll ws s) k = Some m' \<and> motorcycle.status m' = ''pending_collection''"
proof -
  from assms(2) obtain ws1 ws2 where ws: "ws = ws1 @ UpdateMotorcycle k ''pending_collection'' d # ws2"
    by (auto simp add: in_set_conv_decomp)
  obtain m1 where m1: "motorcycles (performAll ws1 s) k = Some m1"
    using motorcycles_performAll_frame [OF assms(3), of ws1] by blast
  have "\<exists>m'. motorcycles (perform (UpdateMotorcycle k ''pending_collection'' d) (performAll ws1 s)) k = Some m'
          \<and> motorcycle.status m' = ''pending_collection''"
    by (simp add: motorcycles_updateMotorcycle m1)
  moreover have "\<forall>w\<in>set ws2. pcWrite w" using assms(1) ws by simp
  ultimately show ?thesis
    using status_performAll_kept [of ws2 "perform (UpdateMotorcycle k ''pending_collection'' d) (performAll ws1 s)" k]
    by (simp add: ws performAll_append performAll_Cons)
qed

subsection \<open>The elements of mikesAuctions\<close>

lemma set_map_filter: "set (List.map_filter f xs) = {y. \<exists>x\<in>set xs. f x = Some y}"
  by (induction xs) (auto split: option.splits)

lemma in_getAuctionsWithBidsByDealer:
  "v \<in> set (getAuctionsWithBidsByDealer sel s dealer) \<longleftrightarrow> (\<exists>k\<in>set (sel dealer). withDetails s k = Some v)"
  by (simp add: getAuctionsWithBidsByDealer_def set_map_filter)

lemma withDetails_SomeD:
  assumes "withDetails s k = Some v"
  shows "\<exists>a m. auctions s k = Some a \<and> motorcycles s (auction.motorcycleId a) = Some m
            \<and> v = auction.extend a \<lparr>motorcycle = m\<rparr>"
  using assms by (auto simp add: withDetails_def split: option.splits)

lemma withDetails_SomeI:
  "auctions s k = Some a \<Longrightarrow> motorcycles s (auction.motorcycleId a) = Some m
   \<Longrightarrow> withDetails s k = Some (auction.extend a \<lparr>motorcycle = m\<rparr>)"
  by (simp add: withDetails_def)

subsection \<open>The writes issued\<close>

lemma fixWrites_pcWrite: "w \<in> set (fixWrites mikeId now v) \<Longrightarrow> pcWrite w"
  by (auto simp add: fixWrites_def pcWrite_def split: if_splits)

lemma fixWrites_UpdateAuctionD:
  "UpdateAuction k st \<in> set (fixWrites mikeId now v) \<Longrightarrow>
     k = auction.id v \<and> st = ''pending_collection''"
  by (auto simp add: fixWrites_def split: if_splits)


lemma fixWrites_UpdateAuctionI:
  "winningBidderId v = Some mikeId \<Longrightarrow> bidAccepted v \<Longrightarrow> auction.status v \<noteq> ''pending_collection''
   \<Longrightarrow> UpdateAuction (auction.id v) ''pending_collection'' \<in> set (fixWrites mikeId now v)"
  by (simp add: fixWrites_def)

lemma fixWrites_UpdateMotorcycleI:
  "winningBidderId v = Some mikeId \<Longrightarrow> bidAccepted v
   \<Longrightarrow> motorcycle.status (motorcycle v) \<noteq> ''pending_collection''
   \<Longrightarrow> UpdateMotorcycle (motorcycle.id (motorcycle v)) ''pending_collection''
         (jsOr (soldDate (motorcycle v)) now) \<in> set (fixWrites mikeId now v)"
  by (simp add: fixWrites_def)

lemma fixWrites_consistent:
  "auction.status v = ''pending_collection'' \<Longrightarrow> motorcycle.status (motorcycle v) = ''pending_collection''
   \<Longrightarrow> fixWrites mikeId now v = []"
  by (simp add: fixWrites_def)

lemma fixWrites_not_won:
  "\<not> (winningBidderId v = Some mikeId \<and> bidAccepted v) \<Longrightarrow> fixWrites mikeId now v = []"
  by (simp add: fixWrites_def)

lemma allWrites_D:
  "w \<in> set (allWrites mikeId clock i vs) \<Longrightarrow> \<exists>v\<in>set vs. \<exists>j. w \<in> set (fixWrites mikeId (clock j) v)"
  by (induction vs arbitrary: i) auto

lemma allWrites_I:
  "v \<in> set vs \<Longrightarrow> \<exists>j. set (fixWrites mikeId (clock j) v) \<subseteq> set (allWrites mikeId clock i vs)"
proof (induction vs arbitrary: i)
  case Nil
  then show ?case by simp
next
  case (Cons x xs)
  show ?case
  proof (cases "v = x")
    case True
    then show ?thesis by auto
  next
    case False
    with Cons.prems have "v \<in> set xs" by simp
    from Cons.IH [OF this, of "Suc i"] show ?thesis by auto
  qed
qed

lemma allWrites_Nil:
  "(\<And>v now. v \<in> set vs \<Longrightarrow> fixWrites mikeId now v = []) \<Longrightarrow> allWrites mikeId clock i vs = []"
  by (induction vs arbitrary: i) auto

lemma issuedWrites_pcWrite: "w \<in> set (issuedWrites sel clock s) \<Longrightarrow> pcWrite w"
  by (auto simp add: issuedWrites_def split: option.splits dest!: allWrites_D fixWrites_pcWrite)


subsection \<open>The store after a run\<close>

lemma view_fields:
  "auction.id (auction.extend a \<lparr>motorcycle = m\<rparr>) = auction.id a"
  "auction.status (auction.extend a \<lparr>motorcycle = m\<rparr>) = auction.status a"
  "winningBidderId (auction.extend a \<lparr>motorcycle = m\<rparr>) = winningBidderId a"
  "bidAccepted (auction.extend a \<lparr>motorcycle = m\<rparr>) = bidAccepted a"
  "motorcycle (auction.extend a \<lparr>motorcycle = m\<rparr>) = m"
  by (simp_all add: auction.extend_def)

lemma wf_auction_id: "wf_storage s \<Longrightarrow> auctions s k = Some a \<Longrightarrow> auction.id a = k"
  by (simp add: wf_storage_def)

lemma wf_motorcycle_id: "wf_storage s \<Longrightarrow> motorcycles s k = Some m \<Longrightarrow> motorcycle.id m = k"
  by (simp add: wf_storage_def)

lemma auctions_after:
  "auctions (checkMikesAuctions sel clock s) k =
     (if UpdateAuction k ''pending_collection'' \<in> set (issuedWrites sel clock s)
      then map_option (\<lambda>a. a\<lparr>auction.status := ''pending_collection''\<rparr>) (auctions s k)
      else auctions s k)"
  unfolding checkMikesAuctions_writes
  by (rule auctions_performAll) (simp add: issuedWrites_pcWrite)

lemma won_after:
  assumes wf: "wf_storage s"
    and mike: "getUserByUsername s ''miketrader'' = Some mike"
    and k: "k \<in> set (sel (user.id mike))"
    and a: "auctions s k = Some a"
    and won: "winningBidderId a = Some (user.id mike)" "bidAccepted a"
    and m: "motorcycles s (auction.motorcycleId a) = Some m"
  shows "auctions (checkMikesAuctions sel clock s) k = Some (a\<lparr>auction.status := ''pending_collection''\<rparr>)"
    and "\<exists>m'. motorcycles (checkMikesAuctions sel clock s) (auction.motorcycleId a) = Some m'
            \<and> motorcycle.status m' = ''pending_collection''"
proof -
  let ?v = "auction.extend a \<lparr>motorcycle = m\<rparr>"
  let ?ws = "issuedWrites sel clock s"
  have v: "?v \<in> set (getAuctionsWithBidsByDealer sel s (user.id mike))"
    using k withDetails_SomeI [OF a m] by (auto simp add: in_getAuctionsWithBidsByDealer)
  obtain j where j: "set (fixWrites (user.id mike) (clock j) ?v) \<subseteq> set ?ws"
    using allWrites_I [OF v, of "user.id mike" clock 0] by (auto simp add: issuedWrites_def mike)
  have pc: "\<forall>w\<in>set ?ws. pcWrite w" by (simp add: issuedWrites_pcWrite)
  show "auctions (checkMikesAuctions sel clock s) k = Some (a\<lparr>auction.status := ''pending_collection''\<rparr>)"
  proof (cases "auction.status a = ''pending_collection''")
    case True
    then have "a\<lparr>auction.status := ''pending_collection''\<rparr> = a" by simp
    then show ?thesis by (simp add: auctions_after a)
  next
    case False
    have "UpdateAuction (auction.id ?v) ''pending_collection'' \<in> set (fixWrites (user.id mike) (clock j) ?v)"
      by (rule fixWrites_UpdateAuctionI) (simp_all add: view_fields won False)
    then have "UpdateAuction k ''pending_collection'' \<in> set ?ws"
      using j by (auto simp add: view_fields wf_auction_id [OF wf a])
    then show ?thesis by (simp add: auctions_after a)
  qed
  show "\<exists>m'. motorcycles (checkMikesAuctions sel clock s) (auction.motorcycleId a) = Some m'
            \<and> motorcycle.status m' = ''pending_collection''"
  proof (cases "motorcycle.status m = ''pending_collection''")
    case True
    show ?thesis
      unfolding checkMikesAuctions_writes
      by (rule status_performAll_kept [OF pc]) (simp add: m True)
  next
    case False
    have "UpdateMotorcycle (motorcycle.id (motorcycle ?v)) ''pending_collection''
            (jsOr (soldDate (motorcycle ?v)) (clock j)) \<in> set (fixWrites (user.id mike) (clock j) ?v)"
      by (rule fixWrites_UpdateMotorcycleI) (simp_all add: view_fields won False)
    then have "UpdateMotorcycle (auction.motorcycleId a) ''pending_collection'' (jsOr (soldDate m) (clock j)) \<in> set ?ws"
      using j by (auto simp add: view_fields wf_motorcycle_id [OF wf m])
    then show ?thesis
      unfolding checkMikesAuctions_writes
      by (rule motorcycles_performAll_status [OF pc _ m])
  qed
qed

lemma users_after: "users (checkMikesAuctions sel clock s) = users s"
  by (simp add: checkMikesAuctions_writes users_performAll)

lemma motorcycles_after_None:
  "motorcycles s k = None \<Longrightarrow> motorcycles (checkMikesAuctions sel clock s) k = None"
  by (simp add: checkMikesAuctions_writes motorcycles_performAll_None)

lemma second_run_writes_nothing:
  assumes wf: "wf_storage s"
  shows "issuedWrites sel clock' (checkMikesAuctions sel clock s) = []"
proof (cases "getUserByUsername s ''miketrader''")
  case None
  then show ?thesis by (simp add: issuedWrites_def getUserByUsername_def users_after)
next
  case (Some mike)
  let ?s' = "checkMikesAuctions sel clock s"
  have mike': "getUserByUsername ?s' ''miketrader'' = Some mike"
    using Some by (simp add: getUserByUsername_def users_after)
  have "fixWrites (user.id mike) now v = []"
    if v: "v \<in> set (getAuctionsWithBidsByDealer sel ?s' (user.id mike))" for v now
  proof -
    from v obtain k where k: "k \<in> set (sel (user.id mike))" and wd: "withDetails ?s' k = Some v"
      by (auto simp add: in_getAuctionsWithBidsByDealer)
    from withDetails_SomeD [OF wd] obtain a' m' where
      a': "auctions ?s' k = Some a'" and m': "motorcycles ?s' (auction.motorcycleId a') = Some m'"
      and veq: "v = auction.extend a' \<lparr>motorcycle = m'\<rparr>" by blast
    from a' obtain a where a: "auctions s k = Some a"
      and aa: "a' = a \<or> a' = a\<lparr>auction.status := ''pending_collection''\<rparr>"
      by (auto simp add: auctions_after split: if_splits)
    from aa have same: "auction.motorcycleId a' = auction.motorcycleId a" "winningBidderId a' = winningBidderId a"
      "bidAccepted a' = bidAccepted a" by auto
    obtain m where m: "motorcycles s (auction.motorcycleId a) = Some m"
      using m' motorcycles_after_None [of s "auction.motorcycleId a" sel clock] same by (cases "motorcycles s (auction.motorcycleId a)") auto
    show ?thesis
    proof (cases "winningBidderId a = Some (user.id mike) \<and> bidAccepted a")
      case True
      then have won: "winningBidderId a = Some (user.id mike)" "bidAccepted a" by simp_all
      have "auctions ?s' k = Some (a\<lparr>auction.status := ''pending_collection''\<rparr>)"
        using wf Some k a won m by (rule won_after(1))
      with a' have "a' = a\<lparr>auction.status := ''pending_collection''\<rparr>" by simp
      then have "auction.status a' = ''pending_collection''" by simp
      moreover have "\<exists>m'. motorcycles ?s' (auction.motorcycleId a) = Some m'
            \<and> motorcycle.status m' = ''pending_collection''"
        using wf Some k a won m by (rule won_after(2))
      with m' same have "motorcycle.status m' = ''pending_collection''" by simp
      ultimately show ?thesis
        by (intro fixWrites_consistent) (simp_all add: veq view_fields)
    next
      case False
      then show ?thesis
        by (intro fixWrites_not_won) (simp add: veq view_fields same)
    qed
  qed
  then have "allWrites (user.id mike) clock' 0 (getAuctionsWithBidsByDealer sel ?s' (user.id mike)) = []"
    by (rule allWrites_Nil)
  then show ?thesis by (simp add: issuedWrites_def mike')
qed

subsection \<open>The example store\<close>

lemma wf_exampleStore: "wf_storage (exampleStore ast w c ist d)"
  by (simp add: wf_storage_def exampleStore_def)

lemma mike_exampleStore:
  "getUserByUsername (exampleStore ast w c ist d) ''miketrader''
     = Some \<lparr>user.id = 7, username = ''miketrader'', role = ''trader''\<rparr>"
  by (simp add: getUserByUsername_def exampleStore_def)

lemma issued_exampleStore:
  "issuedWrites exampleSel clock (exampleStore ast w c ist d) =
     fixWrites 7 (clock 0)
       \<lparr>auction.id = 21, motorcycleId = 10, dealerId = 3, status = ast,
         winningBidderId = w, bidAccepted = True, dealConfirmed = c,
         collectionConfirmed = c, motorcycle = \<lparr>motorcycle.id = 10, make_m = ''Honda'', model = ''CB500'', status = ist,
         soldDate = d\<rparr>\<rparr>"
  by (simp add: issuedWrites_def getUserByUsername_def getAuctionsWithBidsByDealer_def withDetails_def
        auction.extend_def exampleStore_def)

lemma run_exampleStore:
  "checkMikesAuctions exampleSel clock (exampleStore ast w c ist d) =
     (if w = Some 7
      then exampleStore ''pending_collection'' w c ''pending_collection''
             (if ist = ''pending_collection'' then d else Some (jsOr d (clock 0)))
      else exampleStore ast w c ist d)"
  unfolding checkMikesAuctions_writes issued_exampleStore
  by (simp add: fixWrites_def performAll_def updateAuction_def updateMotorcycle_def exampleStore_def)

section \<open>Facts about the upload form\<close>

lemma getDurationMs_pos: "0 < getDurationMs d"
  by (simp add: getDurationMs_def Let_def)

subsection \<open>Removing by index, making object URLs\<close>

lemma filterIndex_from:
  "map fst (filter (\<lambda>(x, j). j \<noteq> i) (zip xs [n..<n + length xs])) =
     (if i < n then xs else take (i - n) xs @ drop (Suc (i - n)) xs)"
proof (induction xs arbitrary: n)
  case Nil
  show ?case by simp
next
  case (Cons x xs)
  have z: "zip (x # xs) [n..<n + length (x # xs)] = (x, n) # zip xs [Suc n..<Suc n + length xs]"
    by (simp add: upt_conv_Cons del: upt_Suc)
  show ?case
  proof (cases "i < Suc n")
    case True
    then show ?thesis
      unfolding z using Cons.IH [of "Suc n"] by (auto simp del: upt_Suc)
  next
    case False
    then have "i - n = Suc (i - Suc n)" by simp
    then show ?thesis
      unfolding z using Cons.IH [of "Suc n"] False by (simp del: upt_Suc)
  qed
qed

lemma filterIndex_eq: "filterIndex i xs = take i xs @ drop (Suc i) xs"
  using filterIndex_from [of i xs 0] by (simp add: filterIndex_def)

lemma length_filterIndex: "length (filterIndex i xs) \<le> length xs"
  by (simp add: filterIndex_eq)

lemma map_filterIndex: "map f (filterIndex i xs) = filterIndex i (map f xs)"
  by (simp add: filterIndex_eq take_map drop_map)

lemma set_filterIndex: "set (filterIndex i xs) \<subseteq> set xs"
  by (auto simp add: filterIndex_eq dest: in_set_takeD in_set_dropD)

lemma distinct_filterIndex:
  assumes "distinct xs"
  shows "distinct (filterIndex i xs)"
proof -
  have "distinct (take i xs @ drop i xs)" using assms by simp
  then have disj: "set (take i xs) \<inter> set (drop i xs) = {}" by (simp only: distinct_append)
  have "set (drop (Suc i) xs) \<subseteq> set (drop i xs)"
    by (rule set_drop_subset_set_drop) simp
  with disj have "set (take i xs) \<inter> set (drop (Suc i) xs) = {}" by blast
  then show ?thesis
    using assms by (simp add: filterIndex_eq)
qed

lemma nth_notin_filterIndex:
  "distinct xs \<Longrightarrow> i < length xs \<Longrightarrow> xs ! i \<notin> set (filterIndex i xs)"
proof -
  assume d: "distinct xs" and i: "i < length xs"
  have "xs = take i xs @ xs ! i # drop (Suc i) xs"
    using i by (simp add: id_take_nth_drop)
  then have "distinct (take i xs @ xs ! i # drop (Suc i) xs)" using d by simp
  then show ?thesis by (auto simp add: filterIndex_eq)
qed


lemma createObjectURLs_urls: "fst (createObjectURLs fs store n) = [n..<n + length fs]"
proof (induction fs arbitrary: store n)
  case Nil
  show ?case by simp
next
  case (Cons f fs)
  show ?case
    by (simp add: Cons.IH split_beta upt_conv_Cons del: upt_Suc)
qed

lemma createObjectURLs_next: "snd (snd (createObjectURLs fs store n)) = n + length fs"
proof (induction fs arbitrary: store n)
  case Nil
  show ?case by simp
next
  case (Cons f fs)
  show ?case
    by (simp add: Cons.IH split_beta)
qed

lemma createObjectURLs_old:
  "u < n \<Longrightarrow> fst (snd (createObjectURLs fs store n)) u = store u"
proof (induction fs arbitrary: store n)
  case Nil
  show ?case by simp
next
  case (Cons f fs)
  then show ?case
    using Cons.IH [of "Suc n" "store(n \<mapsto> f)"] by (simp add: split_beta)
qed

lemma createObjectURLs_new:
  "map (fst (snd (createObjectURLs fs store n))) [n..<n + length fs] = map Some fs"
proof (induction fs arbitrary: store n)
  case Nil
  show ?case by simp
next
  case (Cons f fs)
  have "fst (snd (createObjectURLs fs (store(n \<mapsto> f)) (Suc n))) n = (store(n \<mapsto> f)) n"
    by (rule createObjectURLs_old) simp
  moreover have "map (fst (snd (createObjectURLs fs (store(n \<mapsto> f)) (Suc n))))
      [Suc n..<Suc n + length fs] = map Some fs"
    by (rule Cons.IH)
  ultimately show ?case
    by (simp add: split_beta upt_conv_Cons del: upt_Suc)
qed

lemma imageFiles_handleImageChange:
  "length (imageFiles st) \<le> 20 \<Longrightarrow>
   imageFiles (handleImageChange (Some fs) st) = imageFiles st @ take (20 - length (imageFiles st)) fs"
  by (simp add: handleImageChange_def slice0_def split_beta Let_def nat_diff_distrib')

lemma imagesInv_initial: "imagesInv initialState"
  by (simp add: imagesInv_def initialState_def)

lemma imagesInv_handleImageChange:
  assumes "imagesInv st"
  shows "imagesInv (handleImageChange files st)"
proof (cases files)
  case None
  then show ?thesis using assms by (simp add: handleImageChange_def)
next
  case (Some fs)
  define new where "new = take (20 - length (imageFiles st)) fs"
  define r where "r = createObjectURLs new (objectURLs st) (nextURL st)"
  from assms have len: "length (imageFiles st) \<le> 20"
    and m: "map (objectURLs st) (imageUrls st) = map Some (imageFiles st)"
    and d: "distinct (imageUrls st)"
    and b: "list_all (\<lambda>u. u < nextURL st) (imageUrls st)"
    by (simp_all add: imagesInv_def)
  have new: "slice0 fs (20 - int (length (imageFiles st))) = new"
    using len by (simp add: slice0_def new_def nat_diff_distrib')
  have st': "handleImageChange files st =
      st\<lparr>imageFiles := imageFiles st @ new, imageUrls := imageUrls st @ fst r,
         objectURLs := fst (snd r), nextURL := snd (snd r)\<rparr>"
    by (simp add: Some handleImageChange_def new r_def split_beta Let_def)
  have urls: "fst r = [nextURL st..<nextURL st + length new]"
    by (simp add: r_def createObjectURLs_urls)
  have nxt: "snd (snd r) = nextURL st + length new"
    by (simp add: r_def createObjectURLs_next)
  have old: "map (fst (snd r)) (imageUrls st) = map (objectURLs st) (imageUrls st)"
    using b by (auto simp add: r_def list_all_iff createObjectURLs_old)
  have fresh: "map (fst (snd r)) (fst r) = map Some new"
    unfolding urls by (simp add: r_def createObjectURLs_new)
  have "length (imageFiles st @ new) \<le> 20" using len by (simp add: new_def)
  moreover have "map (fst (snd r)) (imageUrls st @ fst r) = map Some (imageFiles st @ new)"
    by (simp add: old fresh m)
  moreover have "distinct (imageUrls st @ fst r)"
    using d b by (auto simp add: urls list_all_iff)
  moreover have "list_all (\<lambda>u. u < snd (snd r)) (imageUrls st @ fst r)"
    using b by (auto simp add: urls nxt list_all_iff)
  ultimately show ?thesis
    by (simp add: st' imagesInv_def)
qed

lemma imagesInv_removeImage:
  assumes "imagesInv st"
  shows "imagesInv (removeImage i st)"
proof -
  from assms have len: "length (imageFiles st) \<le> 20"
    and m: "map (objectURLs st) (imageUrls st) = map Some (imageFiles st)"
    and d: "distinct (imageUrls st)"
    and b: "list_all (\<lambda>u. u < nextURL st) (imageUrls st)"
    by (simp_all add: imagesInv_def)
  let ?store = "if i < length (imageUrls st) then (objectURLs st)(imageUrls st ! i := None)
                else objectURLs st"
  have same: "map ?store (filterIndex i (imageUrls st)) = map (objectURLs st) (filterIndex i (imageUrls st))"
    using nth_notin_filterIndex [OF d, of i] by auto
  have "length (filterIndex i (imageFiles st)) \<le> 20"
    using len length_filterIndex [of i "imageFiles st"] by simp
  moreover have "map ?store (filterIndex i (imageUrls st)) = map Some (filterIndex i (imageFiles st))"
    unfolding same by (simp add: map_filterIndex m)
  moreover have "distinct (filterIndex i (imageUrls st))"
    using d by (rule distinct_filterIndex)
  moreover have "list_all (\<lambda>u. u < nextURL st) (filterIndex i (imageUrls st))"
    using b set_filterIndex [of i "imageUrls st"] by (auto simp add: list_all_iff)
  ultimately show ?thesis
    by (simp add: removeImage_def imagesInv_def)
qed

lemma imagesInv_step: "imagesInv st \<Longrightarrow> imagesInv (imageStep e st)"
  by (cases e) (simp_all add: imagesInv_handleImageChange imagesInv_removeImage)

lemma imagesInv_run: "imagesInv (runImages evs)"
proof (induction evs rule: rev_induct)
  case Nil
  show ?case by (simp add: runImages_def imagesInv_initial)
next
  case (snoc e evs)
  then show ?case by (simp add: runImages_def imagesInv_step)
qed

lemma imagesInv_nth:
  assumes "imagesInv st"
  shows "length (imageUrls st) = length (imageFiles st)"
    and "i < length (imageFiles st) \<Longrightarrow> objectURLs st (imageUrls st ! i) = Some (imageFiles st ! i)"
proof -
  from assms have m: "map (objectURLs st) (imageUrls st) = map Some (imageFiles st)"
    by (simp add: imagesInv_def)
  from m show l: "length (imageUrls st) = length (imageFiles st)" by (rule map_eq_imp_length_eq)
  assume i: "i < length (imageFiles st)"
  have "map (objectURLs st) (imageUrls st) ! i = map Some (imageFiles st) ! i" by (simp only: m)
  then show "objectURLs st (imageUrls st ! i) = Some (imageFiles st ! i)"
    using i l by simp
qed

section \<open>The claims about the repair pass\<close>

text \<open>
  C1, as stated: after the pass invariant I4 holds for every auction. It fails for an
  auction that another trader (id 8) won: the auction reads pending_collection, its
  motorcycle in_auction, and the pass leaves both as they are.
\<close>

theorem I4_broken_after_pass_counterexample:
  "\<not> I4_at (checkMikesAuctions exampleSel exampleClock
           (exampleStore ''pending_collection'' (Some 8) False ''in_auction'' None)) 21"
  by (simp add: run_exampleStore) (simp add: I4_at_def exampleStore_def)

text \<open>
  C1, amended: on a store that holds every record under its own id, for every auction
  the query selects that miketrader has won with the bid accepted, and whose motorcycle
  is stored, after the pass both records are still stored and invariant I4 holds for
  them: the auction's status is pending_collection iff the motorcycle's is, and completed
  iff the motorcycle's is sold.
\<close>

theorem I4_after_pass_for_won_auction:
  assumes "wf_storage s"
    and "getUserByUsername s ''miketrader'' = Some mike"
    and "k \<in> set (sel (user.id mike))"
    and "auctions s k = Some a"
    and "winningBidderId a = Some (user.id mike)"
    and "bidAccepted a"
    and "motorcycles s (auction.motorcycleId a) = Some m"
  shows "I4_at (checkMikesAuctions sel clock s) k
         \<and> (\<exists>a' m'. auctions (checkMikesAuctions sel clock s) k = Some a'
               \<and> motorcycles (checkMikesAuctions sel clock s) (auction.motorcycleId a') = Some m')"
proof -
  let ?s' = "checkMikesAuctions sel clock s"
  have a': "auctions ?s' k = Some (a\<lparr>auction.status := ''pending_collection''\<rparr>)"
    using assms by (rule won_after(1))
  have "\<exists>m'. motorcycles ?s' (auction.motorcycleId a) = Some m'
            \<and> motorcycle.status m' = ''pending_collection''"
    using assms by (rule won_after(2))
  then obtain m' where m': "motorcycles ?s' (auction.motorcycleId a) = Some m'"
    and st: "motorcycle.status m' = ''pending_collection''" by blast
  show ?thesis
    by (simp add: I4_at_def a' m' st)
qed

theorem I4_after_pass_for_won_auction_witness:
  "wf_storage (exampleStore ''pending_acceptance'' (Some 7) False ''in_auction'' None)
   \<and> 21 \<in> set (exampleSel 7)
   \<and> I4_at (checkMikesAuctions exampleSel exampleClock
        (exampleStore ''pending_acceptance'' (Some 7) False ''in_auction'' None)) 21
   \<and> map_option motorcycle.status (motorcycles (checkMikesAuctions exampleSel exampleClock
        (exampleStore ''pending_acceptance'' (Some 7) False ''in_auction'' None)) 10)
       = Some ''pending_collection''"
proof -
  let ?s = "exampleStore ''pending_acceptance'' (Some 7) False ''in_auction'' None"
  let ?mike = "\<lparr>user.id = 7, username = ''miketrader'', role = ''trader''\<rparr>"
  let ?a = "\<lparr>auction.id = 21, motorcycleId = 10, dealerId = 3, status = ''pending_acceptance'',
         winningBidderId = Some 7, bidAccepted = True, dealConfirmed = False,
         collectionConfirmed = False\<rparr>"
  let ?m = "\<lparr>motorcycle.id = 10, make_m = ''Honda'', model = ''CB500'', status = ''in_auction'',
         soldDate = None\<rparr>"
  have wf: "wf_storage ?s" by (rule wf_exampleStore)
  have mike: "getUserByUsername ?s ''miketrader'' = Some ?mike" by (rule mike_exampleStore)
  have k: "21 \<in> set (exampleSel (user.id ?mike))" by simp
  have a: "auctions ?s 21 = Some ?a" by (simp add: exampleStore_def)
  have won: "winningBidderId ?a = Some (user.id ?mike)" "bidAccepted ?a" by simp_all
  have m: "motorcycles ?s (auction.motorcycleId ?a) = Some ?m" by (simp add: exampleStore_def)
  have "I4_at (checkMikesAuctions exampleSel exampleClock ?s) 21"
    using I4_after_pass_for_won_auction [OF wf mike k a won m, of exampleClock] by blast
  moreover have "map_option motorcycle.status (motorcycles (checkMikesAuctions exampleSel exampleClock ?s) 10)
       = Some ''pending_collection''"
    by (simp add: run_exampleStore) (simp add: exampleStore_def)
  ultimately show ?thesis using wf by simp
qed

text \<open>
  C2: the claim is that no step moves an auction backward along the lifecycle graph. On
  a completed sale that miketrader won (auction completed, motorcycle sold, both
  confirmations given) the pass writes pending_collection to the auction and to the
  motorcycle, although the graph leads from pending_collection to completed and
  completed has no way out.
\<close>

theorem completed_auction_moved_back:
  "map_option auction.status
      (auctions (exampleStore ''completed'' (Some 7) True ''sold'' (Some ''2024-05-01T10:00:00.000Z'')) 21)
     = Some ''completed''
   \<and> map_option auction.status
      (auctions (checkMikesAuctions exampleSel exampleClock
         (exampleStore ''completed'' (Some 7) True ''sold'' (Some ''2024-05-01T10:00:00.000Z''))) 21)
     = Some ''pending_collection''
   \<and> map_option motorcycle.status
      (motorcycles (checkMikesAuctions exampleSel exampleClock
         (exampleStore ''completed'' (Some 7) True ''sold'' (Some ''2024-05-01T10:00:00.000Z''))) 10)
     = Some ''pending_collection''
   \<and> (''pending_collection'', ''completed'') \<in> set lifecycleEdges
   \<and> filter (\<lambda>e. fst e = ''completed'') lifecycleEdges = []"
  by (simp add: run_exampleStore) (simp add: lifecycleEdges_def exampleStore_def)

text \<open>
  C4: the pass is idempotent. On a store that holds every record under its own id, a
  second run (same selection, any clock) issues no write and leaves the store of the
  first run as it is; and for an element whose auction status and motorcycle status are
  both pending_collection the loop body issues no write.
\<close>

theorem reconcile_idempotent:
  assumes "wf_storage s"
  shows "checkMikesAuctions sel clock' (checkMikesAuctions sel clock s) = checkMikesAuctions sel clock s
         \<and> issuedWrites sel clock' (checkMikesAuctions sel clock s) = []
         \<and> (auction.status v = ''pending_collection''
              \<and> motorcycle.status (motorcycle v) = ''pending_collection''
            \<longrightarrow> fixWrites mikeId now v = [])"
proof -
  have none: "issuedWrites sel clock' (checkMikesAuctions sel clock s) = []"
    using assms by (rule second_run_writes_nothing)
  then have "checkMikesAuctions sel clock' (checkMikesAuctions sel clock s) = checkMikesAuctions sel clock s"
    by (simp add: checkMikesAuctions_writes [of sel clock'] performAll_Nil)
  with none show ?thesis by (simp add: fixWrites_consistent)
qed

theorem reconcile_idempotent_witness:
  "wf_storage (exampleStore ''pending_acceptance'' (Some 7) False ''in_auction'' None)
   \<and> checkMikesAuctions exampleSel exampleClock
        (exampleStore ''pending_acceptance'' (Some 7) False ''in_auction'' None)
       = exampleStore ''pending_collection'' (Some 7) False ''pending_collection''
           (Some ''2024-06-01T00:00:00.000Z'')
   \<and> checkMikesAuctions exampleSel (\<lambda>_. ''2024-07-01T00:00:00.000Z'')
        (checkMikesAuctions exampleSel exampleClock
           (exampleStore ''pending_acceptance'' (Some 7) False ''in_auction'' None))
       = checkMikesAuctions exampleSel exampleClock
           (exampleStore ''pending_acceptance'' (Some 7) False ''in_auction'' None)"
proof -
  let ?s = "exampleStore ''pending_acceptance'' (Some 7) False ''in_auction'' None"
  have wf: "wf_storage ?s" by (rule wf_exampleStore)
  have "checkMikesAuctions exampleSel exampleClock ?s
       = exampleStore ''pending_collection'' (Some 7) False ''pending_collection''
           (Some ''2024-06-01T00:00:00.000Z'')"
    by (simp add: run_exampleStore jsOr_def)
  then show ?thesis
    using wf reconcile_idempotent [OF wf, of exampleSel "\<lambda>_. ''2024-07-01T00:00:00.000Z''" exampleClock]
    by simp
qed

text \<open>
  C5, as stated: the repair writes only the Item record and leaves Auction.status
  unchanged. It fails for a won auction still pending_acceptance whose motorcycle already
  reads pending_collection: the only write of the pass goes to the auction, whose status
  changes, and the motorcycle is not written.
\<close>

theorem repair_writes_auction_counterexample:
  "auctions (checkMikesAuctions exampleSel exampleClock
       (exampleStore ''pending_acceptance'' (Some 7) False ''pending_collection''
          (Some ''2024-05-01T10:00:00.000Z''))) 21
     \<noteq> auctions (exampleStore ''pending_acceptance'' (Some 7) False ''pending_collection''
          (Some ''2024-05-01T10:00:00.000Z'')) 21
   \<and> issuedWrites exampleSel exampleClock
       (exampleStore ''pending_acceptance'' (Some 7) False ''pending_collection''
          (Some ''2024-05-01T10:00:00.000Z''))
     = [UpdateAuction 21 ''pending_collection'']"
  by (simp add: run_exampleStore issued_exampleStore) (simp add: exampleStore_def fixWrites_def)

subsection \<open>Statuses ahead of pending_collection, writes for a won auction\<close>

lemma leadsToPendingCollection_iff:
  "leadsToPendingCollection st \<longleftrightarrow> st \<in> {''active'', ''pending_acceptance'', ''pending_collection''}"
proof
  assume "leadsToPendingCollection st"
  then have "(st, ''pending_collection'') \<in> (set lifecycleEdges)\<^sup>*"
    by (simp add: leadsToPendingCollection_def)
  then show "st \<in> {''active'', ''pending_acceptance'', ''pending_collection''}"
  proof (induction rule: converse_rtrancl_induct)
    case base
    show ?case by simp
  next
    case (step y z)
    then show ?case by (auto simp add: lifecycleEdges_def)
  qed
next
  assume st: "st \<in> {''active'', ''pending_acceptance'', ''pending_collection''}"
  have e1: "(''active'', ''pending_acceptance'') \<in> set lifecycleEdges"
    and e2: "(''pending_acceptance'', ''pending_collection'') \<in> set lifecycleEdges"
    by (simp_all add: lifecycleEdges_def)
  from e2 have r2: "(''pending_acceptance'', ''pending_collection'') \<in> (set lifecycleEdges)\<^sup>*"
    by (rule r_into_rtrancl)
  from e1 r2 have r1: "(''active'', ''pending_collection'') \<in> (set lifecycleEdges)\<^sup>*"
    by (rule converse_rtrancl_into_rtrancl)
  from st r1 r2 show "leadsToPendingCollection st"
    by (auto simp add: leadsToPendingCollection_def)
qed

lemma issuedWrites_won:
  assumes wf: "wf_storage s"
    and mike: "getUserByUsername s ''miketrader'' = Some mike"
    and k: "k \<in> set (sel (user.id mike))"
    and a: "auctions s k = Some a"
    and won: "winningBidderId a = Some (user.id mike)" "bidAccepted a"
    and m: "motorcycles s (auction.motorcycleId a) = Some m"
  shows "auction.status a \<noteq> ''pending_collection''
           \<Longrightarrow> UpdateAuction k ''pending_collection'' \<in> set (issuedWrites sel clock s)"
    and "motorcycle.status m \<noteq> ''pending_collection''
           \<Longrightarrow> \<exists>d. UpdateMotorcycle (auction.motorcycleId a) ''pending_collection'' d
                  \<in> set (issuedWrites sel clock s)"
proof -
  let ?v = "auction.extend a \<lparr>motorcycle = m\<rparr>"
  let ?ws = "issuedWrites sel clock s"
  have v: "?v \<in> set (getAuctionsWithBidsByDealer sel s (user.id mike))"
    using k withDetails_SomeI [OF a m] by (auto simp add: in_getAuctionsWithBidsByDealer)
  obtain i where i: "set (fixWrites (user.id mike) (clock i) ?v) \<subseteq> set ?ws"
    using allWrites_I [OF v, of "user.id mike" clock 0] by (auto simp add: issuedWrites_def mike)
  {
    assume ne: "auction.status a \<noteq> ''pending_collection''"
    have "UpdateAuction (auction.id ?v) ''pending_collection'' \<in> set (fixWrites (user.id mike) (clock i) ?v)"
      by (rule fixWrites_UpdateAuctionI) (simp_all add: view_fields won ne)
    then show "UpdateAuction k ''pending_collection'' \<in> set ?ws"
      using i by (auto simp add: view_fields wf_auction_id [OF wf a])
  }
  {
    assume ne: "motorcycle.status m \<noteq> ''pending_collection''"
    have "UpdateMotorcycle (motorcycle.id (motorcycle ?v)) ''pending_collection''
            (jsOr (soldDate (motorcycle ?v)) (clock i)) \<in> set (fixWrites (user.id mike) (clock i) ?v)"
      by (rule fixWrites_UpdateMotorcycleI) (simp_all add: view_fields won ne)
    then have "UpdateMotorcycle (auction.motorcycleId a) ''pending_collection'' (jsOr (soldDate m) (clock i)) \<in> set ?ws"
      using i by (auto simp add: view_fields wf_motorcycle_id [OF wf m])
    then show "\<exists>d. UpdateMotorcycle (auction.motorcycleId a) ''pending_collection'' d \<in> set ?ws"
      by blast
  }
qed

text \<open>
  C5, amended: reconciliation corrects both records. On a store that holds every record
  under its own id, take an auction the query selects that miketrader has won with the
  bid accepted, whose status is pending_collection or lies before it on the lifecycle
  graph, and whose motorcycle is stored and not sold. After the pass the Auction record
  is the old one with status pending_collection, and the Item record has status
  pending_collection and differs from the old one in nothing but status and sold date;
  the pass has issued a write to the Auction record if its status differed and a write
  to the Item record if its status differed. Over a run every Auction record changes in
  nothing but its status, and every Item record in nothing but its status and sold date.
\<close>

theorem repair_sets_both_statuses:
  assumes "wf_storage s"
    and "getUserByUsername s ''miketrader'' = Some mike"
    and "k \<in> set (sel (user.id mike))"
    and "auctions s k = Some a"
    and "winningBidderId a = Some (user.id mike)"
    and "bidAccepted a"
    and "motorcycles s (auction.motorcycleId a) = Some m"
    and "leadsToPendingCollection (auction.status a)"
    and "motorcycle.status m \<noteq> ''sold''"
  shows "auctions (checkMikesAuctions sel clock s) k
           = Some (a\<lparr>auction.status := ''pending_collection''\<rparr>)
         \<and> (\<exists>m'. motorcycles (checkMikesAuctions sel clock s) (auction.motorcycleId a) = Some m'
               \<and> motorcycle.status m' = ''pending_collection''
               \<and> m'\<lparr>motorcycle.status := motorcycle.status m, soldDate := soldDate m\<rparr> = m)
         \<and> (auction.status a \<noteq> ''pending_collection''
               \<longrightarrow> UpdateAuction k ''pending_collection'' \<in> set (issuedWrites sel clock s))
         \<and> (motorcycle.status m \<noteq> ''pending_collection''
               \<longrightarrow> (\<exists>d. UpdateMotorcycle (auction.motorcycleId a) ''pending_collection'' d
                          \<in> set (issuedWrites sel clock s)))
         \<and> (\<forall>b. auctions s k' = Some b \<longrightarrow>
               (\<exists>b'. auctions (checkMikesAuctions sel clock s) k' = Some b'
                  \<and> b'\<lparr>auction.status := auction.status b\<rparr> = b))
         \<and> (\<forall>n. motorcycles s j = Some n \<longrightarrow>
               (\<exists>n'. motorcycles (checkMikesAuctions sel clock s) j = Some n'
                  \<and> n'\<lparr>motorcycle.status := motorcycle.status n, soldDate := soldDate n\<rparr> = n))"
proof -
  let ?s' = "checkMikesAuctions sel clock s"
  note hyps = assms(1-7)
  have a': "auctions ?s' k = Some (a\<lparr>auction.status := ''pending_collection''\<rparr>)"
    using hyps by (rule won_after(1))
  have "\<exists>m'. motorcycles ?s' (auction.motorcycleId a) = Some m'
            \<and> motorcycle.status m' = ''pending_collection''"
    using hyps by (rule won_after(2))
  then obtain m' where m': "motorcycles ?s' (auction.motorcycleId a) = Some m'"
    and st: "motorcycle.status m' = ''pending_collection''" by blast
  have frame_m: "\<exists>n'. motorcycles ?s' j = Some n'
      \<and> n'\<lparr>motorcycle.status := motorcycle.status n, soldDate := soldDate n\<rparr> = n"
    if "motorcycles s j = Some n" for j n
    unfolding checkMikesAuctions_writes using that by (rule motorcycles_performAll_frame)
  from frame_m [OF assms(7)] m'
  have same: "m'\<lparr>motorcycle.status := motorcycle.status m, soldDate := soldDate m\<rparr> = m" by simp
  have frame_a: "\<exists>b'. auctions ?s' k' = Some b' \<and> b'\<lparr>auction.status := auction.status b\<rparr> = b"
    if "auctions s k' = Some b" for b
    using that by (simp add: auctions_after)
  have w1: "auction.status a \<noteq> ''pending_collection''
           \<Longrightarrow> UpdateAuction k ''pending_collection'' \<in> set (issuedWrites sel clock s)"
    using hyps by (rule issuedWrites_won(1))
  have w2: "motorcycle.status m \<noteq> ''pending_collection''
           \<Longrightarrow> \<exists>d. UpdateMotorcycle (auction.motorcycleId a) ''pending_collection'' d
                  \<in> set (issuedWrites sel clock s)"
    using hyps by (rule issuedWrites_won(2))
  from a' m' st same w1 w2 frame_a frame_m show ?thesis by blast
qed

theorem repair_sets_both_statuses_witness:
  "leadsToPendingCollection ''pending_acceptance''
   \<and> \<not> leadsToPendingCollection ''completed''
   \<and> issuedWrites exampleSel exampleClock
        (exampleStore ''pending_acceptance'' (Some 7) False ''in_auction'' None)
      = [UpdateAuction 21 ''pending_collection'',
         UpdateMotorcycle 10 ''pending_collection'' ''2024-06-01T00:00:00.000Z'']
   \<and> auctions (checkMikesAuctions exampleSel exampleClock
        (exampleStore ''pending_acceptance'' (Some 7) False ''in_auction'' None)) 21
      = Some \<lparr>auction.id = 21, motorcycleId = 10, dealerId = 3, status = ''pending_collection'',
         winningBidderId = Some 7, bidAccepted = True, dealConfirmed = False,
         collectionConfirmed = False\<rparr>
   \<and> map_option motorcycle.status (motorcycles (checkMikesAuctions exampleSel exampleClock
        (exampleStore ''pending_acceptance'' (Some 7) False ''in_auction'' None)) 10)
      = Some ''pending_collection''"
proof -
  let ?s = "exampleStore ''pending_acceptance'' (Some 7) False ''in_auction'' None"
  let ?mike = "\<lparr>user.id = 7, username = ''miketrader'', role = ''trader''\<rparr>"
  let ?a = "\<lparr>auction.id = 21, motorcycleId = 10, dealerId = 3, status = ''pending_acceptance'',
         winningBidderId = Some 7, bidAccepted = True, dealConfirmed = False,
         collectionConfirmed = False\<rparr>"
  let ?m = "\<lparr>motorcycle.id = 10, make_m = ''Honda'', model = ''CB500'', status = ''in_auction'',
         soldDate = None\<rparr>"
  have wf: "wf_storage ?s" by (rule wf_exampleStore)
  have mike: "getUserByUsername ?s ''miketrader'' = Some ?mike" by (rule mike_exampleStore)
  have k: "21 \<in> set (exampleSel (user.id ?mike))" by simp
  have a: "auctions ?s 21 = Some ?a" by (simp add: exampleStore_def)
  have won: "winningBidderId ?a = Some (user.id ?mike)" "bidAccepted ?a" by simp_all
  have m: "motorcycles ?s (auction.motorcycleId ?a) = Some ?m" by (simp add: exampleStore_def)
  have ahead: "leadsToPendingCollection (auction.status ?a)"
    by (simp add: leadsToPendingCollection_iff)
  have unsold: "motorcycle.status ?m \<noteq> ''sold''" by simp
  note inst = repair_sets_both_statuses
      [where clock = exampleClock and k' = 21 and j = 10, OF wf mike k a won m ahead unsold]
  from inst have "auctions (checkMikesAuctions exampleSel exampleClock ?s) 21
      = Some (?a\<lparr>auction.status := ''pending_collection''\<rparr>)" by blast
  moreover from inst have "\<exists>m'. motorcycles (checkMikesAuctions exampleSel exampleClock ?s) 10 = Some m'
               \<and> motorcycle.status m' = ''pending_collection''" by auto
  then have "map_option motorcycle.status (motorcycles (checkMikesAuctions exampleSel exampleClock ?s) 10)
      = Some ''pending_collection''" by auto
  moreover have "issuedWrites exampleSel exampleClock ?s
      = [UpdateAuction 21 ''pending_collection'',
         UpdateMotorcycle 10 ''pending_collection'' ''2024-06-01T00:00:00.000Z'']"
    by (simp add: issued_exampleStore fixWrites_def jsOr_def)
  moreover have "leadsToPendingCollection ''pending_acceptance''"
    and "\<not> leadsToPendingCollection ''completed''"
    by (simp_all add: leadsToPendingCollection_iff)
  ultimately show ?thesis by simp
qed

subsection \<open>The sold date a write carries\<close>
















section \<open>The claims about the upload form\<close>

text \<open>
  C7: every auction request the form sends has
  endTime = startTime + getDurationMs(auctionDuration) and so ends strictly after it
  starts, whether reached through the validated submit or by calling the mutation with
  any form values; getDurationMs is strictly positive on every string.
\<close>

theorem created_auction_ends_after_start:
  "(mutationFn data usr motorcycle_id now = Inr req \<longrightarrow>
      endTime req = startTime req + getDurationMs (auctionDuration data)
      \<and> startTime req < endTime req)
   \<and> (handleSubmit data usr motorcycle_id now = Inr req \<longrightarrow>
      endTime req = startTime req + getDurationMs (auctionDuration data)
      \<and> startTime req < endTime req)
   \<and> (\<forall>d. 0 < getDurationMs d)"
proof -
  have m: "mutationFn data' usr motorcycle_id now = Inr req \<Longrightarrow>
      endTime req = startTime req + getDurationMs (auctionDuration data')
      \<and> startTime req < endTime req" for data'
    using getDurationMs_pos [of "auctionDuration data'"]
    by (auto simp add: mutationFn_def newDate_def split: option.splits if_splits)
  have "handleSubmit data usr motorcycle_id now = Inr req \<Longrightarrow>
      endTime req = startTime req + getDurationMs (auctionDuration data)
      \<and> startTime req < endTime req"
  proof -
    assume sent: "handleSubmit data usr motorcycle_id now = Inr req"
    then obtain r u where u: "usr = Some u"
      and mut: "mutationFn (data\<lparr>uploadFormValues.visibilityRadius := r,
                  uploadFormValues.dealerId := Some (user.id u)\<rparr>) usr motorcycle_id now = Inr req"
      by (auto simp add: handleSubmit_def onSubmit_def uploadSchema_def
            split: option.splits if_splits)
    from m [OF mut] show ?thesis by simp
  qed
  with m [of data] show ?thesis by (simp add: getDurationMs_pos)
qed

theorem created_auction_ends_after_start_witness:
  "mutationFn \<lparr>uploadFormValues.dealerId = Some 3, auctionDuration = ''2weeks'',
        visibilityType = ''all'', visibilityRadius = Null\<rparr>
      (Some \<lparr>user.id = 3, username = ''dealer'', role = ''dealer''\<rparr>) 10 1700000000000
     = Inr \<lparr>auctionRequest.motorcycleId = 10, dealerId = Some 3, startTime = 1700000000000,
            endTime = 1701209600000, visibilityType = ''all'', visibilityRadius = Null\<rparr>
   \<and> (1701209600000 :: int) = 1700000000000 + getDurationMs ''2weeks''
   \<and> (1700000000000 :: int) < 1701209600000"
proof -
  let ?data = "\<lparr>uploadFormValues.dealerId = Some 3, auctionDuration = ''2weeks'',
        visibilityType = ''all'', visibilityRadius = Null\<rparr>"
  let ?usr = "Some \<lparr>user.id = 3, username = ''dealer'', role = ''dealer''\<rparr>"
  let ?req = "\<lparr>auctionRequest.motorcycleId = 10, dealerId = Some 3, startTime = 1700000000000,
            endTime = 1701209600000, visibilityType = ''all'', visibilityRadius = Null\<rparr>"
  have sent: "mutationFn ?data ?usr 10 1700000000000 = Inr ?req"
    by (simp add: mutationFn_def newDate_def getDurationMs_def dealerIdOr_def)
  from created_auction_ends_after_start [of ?data ?usr 10 1700000000000 ?req] sent
  have "endTime ?req = startTime ?req + getDurationMs (auctionDuration ?data)
      \<and> startTime ?req < endTime ?req" by blast
  with sent show ?thesis by simp
qed

text \<open>
  C9: getDurationMs is defined on every string: one day for '1day', seven days for
  '1week', fourteen for '2weeks', thirty days for '1month', and one day for any other
  string.
\<close>

theorem getDurationMs_table:
  "getDurationMs ''1day'' = 86400000
   \<and> getDurationMs ''1week'' = 604800000
   \<and> getDurationMs ''2weeks'' = 1209600000
   \<and> getDurationMs ''1month'' = 2592000000
   \<and> 2592000000 = 30 * getDurationMs ''1day''
   \<and> (d \<notin> {''1day'', ''1week'', ''2weeks'', ''1month''} \<longrightarrow> getDurationMs d = 86400000)"
  by (simp add: getDurationMs_def)

theorem getDurationMs_table_witness:
  "''3days'' \<notin> {''1day'', ''1week'', ''2weeks'', ''1month''} \<and> getDurationMs ''3days'' = 86400000"
proof -
  have other: "''3days'' \<notin> {''1day'', ''1week'', ''2weeks'', ''1month''}" by simp
  with getDurationMs_table [of "''3days''"] have "getDurationMs ''3days'' = 86400000" by blast
  with other show ?thesis by simp
qed

text \<open>
  What a request sent after validation carries: the form's visibilityType, one of the
  three listed, and the preprocessed radius for 'radius', null otherwise.
\<close>

lemma handleSubmit_visibility:
  "handleSubmit values usr motorcycle_id now = Inr req \<Longrightarrow>
     auctionRequest.visibilityType req = uploadFormValues.visibilityType values
     \<and> auctionRequest.visibilityType req \<in> {''all'', ''favorites'', ''radius''}
     \<and> auctionRequest.visibilityRadius req =
         (if uploadFormValues.visibilityType values = ''radius''
          then preprocessRadius (uploadFormValues.visibilityRadius values) else Null)
     \<and> uploadFormValues.visibilityRadius values \<notin> {Undefined, NaN}"
  by (auto simp add: handleSubmit_def onSubmit_def mutationFn_def uploadSchema_def z_enum_def
        preprocessRadius_def z_number_nullable_optional_def
        split: option.splits if_splits radius.splits)

text \<open>
  C10: the claim is that the request's visibilityRadius equals the form's radius value
  when visibilityType is 'radius'. With 'radius' chosen and the radius input left empty
  the form holds null (the default, and what the change handler stores for an empty
  input); the schema's preprocessing turns null into 0, and the request carries 0. A
  number passes unchanged, and an undefined radius sends nothing.
\<close>

theorem null_radius_sent_as_zero:
  "handleSubmit \<lparr>uploadFormValues.dealerId = None, auctionDuration = ''1week'',
        visibilityType = ''radius'', visibilityRadius = Null\<rparr>
      (Some \<lparr>user.id = 3, username = ''dealer'', role = ''dealer''\<rparr>) 12 1700000000000
     = Inr \<lparr>auctionRequest.motorcycleId = 12, dealerId = Some 3, startTime = 1700000000000,
            endTime = 1700604800000, visibilityType = ''radius'', visibilityRadius = Radius 0\<rparr>
   \<and> handleSubmit \<lparr>uploadFormValues.dealerId = None, auctionDuration = ''1week'',
        visibilityType = ''radius'', visibilityRadius = Radius 50\<rparr>
      (Some \<lparr>user.id = 3, username = ''dealer'', role = ''dealer''\<rparr>) 12 1700000000000
     = Inr \<lparr>auctionRequest.motorcycleId = 12, dealerId = Some 3, startTime = 1700000000000,
            endTime = 1700604800000, visibilityType = ''radius'', visibilityRadius = Radius 50\<rparr>
   \<and> handleSubmit \<lparr>uploadFormValues.dealerId = None, auctionDuration = ''1week'',
        visibilityType = ''radius'', visibilityRadius = Undefined\<rparr>
      (Some \<lparr>user.id = 3, username = ''dealer'', role = ''dealer''\<rparr>) 12 1700000000000
     = Inl InvalidForm"
  by (simp add: handleSubmit_def onSubmit_def mutationFn_def uploadSchema_def z_enum_def
        preprocessRadius_def z_number_nullable_optional_def newDate_def getDurationMs_def
        dealerIdOr_def)

text \<open>
  C8: after any sequence of handleImageChange and removeImage calls from the empty
  selection there are at most 20 files, as many URLs as files, and the URL at each index
  is the live object URL of the file at that index; on such a selection
  handleImageChange appends the incoming files cut to the remaining capacity.
\<close>

theorem image_selection_invariant:
  "length (imageFiles (runImages evs)) \<le> 20
   \<and> length (imageUrls (runImages evs)) = length (imageFiles (runImages evs))
   \<and> (\<forall>i < length (imageFiles (runImages evs)).
        objectURLs (runImages evs) (imageUrls (runImages evs) ! i)
          = Some (imageFiles (runImages evs) ! i))
   \<and> imageFiles (handleImageChange (Some fs) (runImages evs)) =
        imageFiles (runImages evs) @ take (20 - length (imageFiles (runImages evs))) fs"
proof -
  have inv: "imagesInv (runImages evs)" by (rule imagesInv_run)
  then have len: "length (imageFiles (runImages evs)) \<le> 20" by (simp add: imagesInv_def)
  show ?thesis
    using len imagesInv_nth [OF inv] imageFiles_handleImageChange [OF len] by simp
qed

theorem image_selection_invariant_witness:
  "imageFiles (runImages [HandleImageChange (Some [''a.png'', ''b.png'', ''c.png'', ''d.png'']),
        RemoveImage 2, HandleImageChange None, HandleImageChange (Some [''e.png''])])
     = [''a.png'', ''b.png'', ''d.png'', ''e.png'']
   \<and> imageUrls (runImages [HandleImageChange (Some [''a.png'', ''b.png'', ''c.png'', ''d.png'']),
        RemoveImage 2, HandleImageChange None, HandleImageChange (Some [''e.png''])])
     = [0, 1, 3, 4]
   \<and> objectURLs (runImages [HandleImageChange (Some [''a.png'', ''b.png'', ''c.png'', ''d.png'']),
        RemoveImage 2, HandleImageChange None, HandleImageChange (Some [''e.png''])]) 3
     = Some ''d.png''"
proof -
  let ?evs = "[HandleImageChange (Some [''a.png'', ''b.png'', ''c.png'', ''d.png'']),
        RemoveImage 2, HandleImageChange None, HandleImageChange (Some [''e.png''])]"
  have files: "imageFiles (runImages ?evs) = [''a.png'', ''b.png'', ''d.png'', ''e.png'']"
    and urls: "imageUrls (runImages ?evs) = [0, 1, 3, 4]"
    by (simp_all add: runImages_def initialState_def handleImageChange_def removeImage_def
          slice0_def filterIndex_def upt_conv_Cons del: upt_Suc)
  have i: "2 < length (imageFiles (runImages ?evs))" by (simp add: files)
  from image_selection_invariant [of ?evs "[]"] i
  have "objectURLs (runImages ?evs) (imageUrls (runImages ?evs) ! 2)
          = Some (imageFiles (runImages ?evs) ! 2)" by blast
  then have "objectURLs (runImages ?evs) 3 = Some ''d.png''" by (simp add: files urls)
  with files urls show ?thesis by simp
qed

end
